theory Spec2Isabelle
  imports Complex_Main "HOL-Library.Sublist"
begin

section \<open>redis-go: the RESP codec and the command handlers\<close>

text \<open>
  A Go \<open>string\<close> and a \<open>[]byte\<close> are sequences of bytes: \<^typ>\<open>string\<close>, a list of
  8-bit \<^typ>\<open>char\<close>. Go's \<open>int\<close> is 64 bits wide here; it is an \<^typ>\<open>int\<close> with the
  range checks and the wrap-around written where the program can reach them.
\<close>

definition CR :: char where
  "CR = CHR 0x0D"

definition LF :: char where
  "LF = CHR 0x0A"

definition CRLF :: string where
  "CRLF = [CR, LF]"

subsection \<open>Errors and results\<close>

text \<open>
  The error values that reach the parser: \<open>io.EOF\<close>, \<open>io.ErrNoProgress\<close> and
  \<open>bufio.ErrBufferFull\<close> from the reader, \<open>*strconv.NumError\<close> from \<open>strconv.Atoi\<close>,
  and the parser's own \<open>unknown RESP type\<close>.
\<close>

datatype go_error = EOF | ErrNoProgress | ErrBufferFull | NumError | UnknownRESPType char

text \<open>
  A Go function returning \<open>(T, error)\<close> either returns a value with a nil error, or an
  error; a run-time panic (here: \<open>make\<close> with a negative length) is a third outcome, which
  no caller in this program recovers from.
\<close>

datatype 'a result = Ok 'a | Err go_error | Panic

subsection \<open>strconv.Atoi and the \<open>%d\<close> verb\<close>

definition isDigit :: "char \<Rightarrow> bool" where
  "isDigit c = (48 \<le> (of_char c :: nat) \<and> (of_char c :: nat) \<le> 57)"

definition digitVal :: "char \<Rightarrow> nat" where
  "digitVal c = of_char c - 48"

definition digitChar :: "nat \<Rightarrow> char" where
  "digitChar d = ''0123456789'' ! d"

text \<open>The digit loop of \<open>Atoi\<close>: \<open>n = n*10 + int(ch - '0')\<close>, a syntax error on any other byte.\<close>

fun digitsVal :: "nat \<Rightarrow> string \<Rightarrow> nat option" where
  "digitsVal n [] = Some n"
| "digitsVal n (ch # s) = (if isDigit ch then digitsVal (n * 10 + digitVal ch) s else None)"

text \<open>
  \<open>strconv.Atoi\<close>: an optional sign, then one or more decimal digits; the value must fit
  a 64-bit \<open>int\<close>. Both of its failures (syntax, range) are a \<open>*NumError\<close>.
\<close>

definition Atoi :: "string \<Rightarrow> go_error + int" where
  "Atoi s =
     (case s of
        [] \<Rightarrow> Inl NumError
      | c # cs \<Rightarrow>
          (let neg = (c = CHR ''-'');
               ds = (if c = CHR ''-'' \<or> c = CHR ''+'' then cs else s)
           in if ds = [] then Inl NumError
              else (case digitsVal 0 ds of
                      None \<Rightarrow> Inl NumError
                    | Some n \<Rightarrow>
                        (let v = (if neg then - int n else int n)
                         in if v < - (2 ^ 63) \<or> 2 ^ 63 - 1 < v then Inl NumError
                            else Inr v))))"

function natDigits :: "nat \<Rightarrow> string" where
  "natDigits n = (if n < 10 then [digitChar n] else natDigits (n div 10) @ [digitChar (n mod 10)])"
  by pat_completeness auto
termination
  by (relation "measure id") auto

declare natDigits.simps [simp del]

text \<open>\<open>fmt.Sprintf("%d", n)\<close>.\<close>

definition Itoa :: "int \<Rightarrow> string" where
  "Itoa n = (if n < 0 then CHR ''-'' # natDigits (nat (- n)) else natDigits (nat n))"

subsection \<open>strings.TrimSuffix\<close>

definition HasSuffix :: "string \<Rightarrow> string \<Rightarrow> bool" where
  "HasSuffix s suf = (length suf \<le> length s \<and> drop (length s - length suf) s = suf)"

definition TrimSuffix :: "string \<Rightarrow> string \<Rightarrow> string" where
  "TrimSuffix s suf = (if HasSuffix s suf then take (length s - length suf) s else s)"

subsection \<open>bufio.Reader over a connection\<close>

text \<open>
  The connection delivers its bytes in pieces: \<open>rd\<close> is the list of the pieces still to
  come, one per successful \<open>Read\<close> of the connection at most, and the connection is closed
  after the last. A \<open>Read\<close> of the connection into \<open>k\<close> free bytes blocks until there is
  data and returns at most \<open>k\<close> bytes of the first piece; on a closed connection it returns
  \<open>(0, io.EOF)\<close>.
\<close>

fun conn_Read :: "nat \<Rightarrow> string list \<Rightarrow> string \<times> go_error option \<times> string list" where
  "conn_Read k [] = ([], Some EOF, [])"
| "conn_Read k (c # cs) =
     (if c = [] then conn_Read k cs
      else (take k c, None, (if k < length c then drop k c # cs else cs)))"

text \<open>
  \<open>bufio.Reader\<close>: \<open>buf\<close> is the unread part \<open>b.buf[b.r:b.w]\<close> of its buffer, \<open>err\<close> the
  pending error \<open>b.err\<close>, \<open>rd\<close> the underlying connection. \<open>bufio.NewReader\<close> gives the buffer
  4096 bytes.
\<close>

record Reader =
  buf :: string
  err :: "go_error option"
  rd :: "string list"

definition defaultBufSize :: nat where
  "defaultBufSize = 4096"

definition NewReader :: "string list \<Rightarrow> Reader" where
  "NewReader conn = \<lparr>buf = [], err = None, rd = conn\<rparr>"

text \<open>
  \<open>fill\<close> reads a new piece into the free part of the buffer, trying up to
  \<open>maxConsecutiveEmptyReads = 100\<close> times. Its callers never call it on a full buffer.
\<close>

fun fill_loop :: "nat \<Rightarrow> Reader \<Rightarrow> Reader" where
  "fill_loop 0 b = b\<lparr>err := Some ErrNoProgress\<rparr>"
| "fill_loop (Suc i) b =
     (case conn_Read (defaultBufSize - length (buf b)) (rd b) of
        (bs, e, cs) \<Rightarrow>
          (let b' = b\<lparr>buf := buf b @ bs, rd := cs\<rparr>
           in case e of
                Some x \<Rightarrow> b'\<lparr>err := Some x\<rparr>
              | None \<Rightarrow> if bs \<noteq> [] then b' else fill_loop i b'))"

definition fill :: "Reader \<Rightarrow> Reader" where
  "fill b = fill_loop 100 b"

text \<open>The bytes the reader has yet to hand out, in order.\<close>

definition remaining :: "Reader \<Rightarrow> string" where
  "remaining b = buf b @ concat (rd b)"

lemma conn_Read_concat:
  "conn_Read k cs = (bs, e, cs') \<Longrightarrow> bs @ concat cs' = concat cs"
proof (induction cs)
  case Nil
  then show ?case by simp
next
  case (Cons c cs)
  show ?case
  proof (cases "c = []")
    case True
    with Cons show ?thesis by simp
  next
    case False
    with Cons.prems show ?thesis by (auto split: if_splits)
  qed
qed

lemma conn_Read_progress:
  "0 < k \<Longrightarrow> conn_Read k cs = (bs, e, cs') \<Longrightarrow>
     (e = Some EOF \<and> bs = [] \<and> cs' = [] \<and> concat cs = []) \<or> (e = None \<and> bs \<noteq> [])"
proof (induction cs)
  case Nil
  then show ?case by simp
next
  case (Cons c cs)
  show ?case
  proof (cases "c = []")
    case True
    with Cons show ?thesis by simp
  next
    case False
    with Cons.prems show ?thesis by (auto split: if_splits)
  qed
qed

lemma conn_Read_length:
  "conn_Read k cs = (bs, e, cs') \<Longrightarrow> length bs \<le> k"
  by (induction cs) (auto split: if_splits)

lemma fill_cases:
  assumes "length (buf b) < defaultBufSize"
  shows "(concat (rd b) = [] \<and> fill b = b\<lparr>rd := [], err := Some EOF\<rparr>) \<or>
         (\<exists>bs cs. bs \<noteq> [] \<and> bs @ concat cs = concat (rd b) \<and>
            length (buf b) + length bs \<le> defaultBufSize \<and>
            fill b = b\<lparr>buf := buf b @ bs, rd := cs\<rparr>)"
proof -
  obtain bs e cs where r: "conn_Read (defaultBufSize - length (buf b)) (rd b) = (bs, e, cs)"
    by (cases "conn_Read (defaultBufSize - length (buf b)) (rd b)") auto
  have k: "0 < defaultBufSize - length (buf b)" using assms by simp
  have "(100::nat) = Suc 99" by simp
  then have "fill b = fill_loop (Suc 99) b" by (simp only: fill_def)
  then have f: "fill b =
     (let b' = b\<lparr>buf := buf b @ bs, rd := cs\<rparr>
      in case e of Some x \<Rightarrow> b'\<lparr>err := Some x\<rparr>
         | None \<Rightarrow> if bs \<noteq> [] then b' else fill_loop 99 b')"
    by (simp only: fill_loop.simps r prod.case)
  from conn_Read_progress [OF k r] show ?thesis
  proof
    assume "e = Some EOF \<and> bs = [] \<and> cs = [] \<and> concat (rd b) = []"
    then show ?thesis by (simp add: f)
  next
    assume a: "e = None \<and> bs \<noteq> []"
    have "length bs \<le> defaultBufSize - length (buf b)" using conn_Read_length [OF r] .
    then have "length (buf b) + length bs \<le> defaultBufSize" using assms by simp
    moreover have "bs @ concat cs = concat (rd b)" using conn_Read_concat [OF r] .
    moreover have "fill b = b\<lparr>buf := buf b @ bs, rd := cs\<rparr>" using a by (simp add: f)
    ultimately show ?thesis using a by blast
  qed
qed

lemma fill_remaining:
  assumes "length (buf b) < defaultBufSize"
  shows "remaining (fill b) = remaining b"
  using fill_cases [OF assms] by (auto simp: remaining_def)

lemma fill_err:
  assumes "length (buf b) < defaultBufSize"
  shows "err (fill b) = err b \<or> err (fill b) = Some EOF"
  using fill_cases [OF assms] by auto

text \<open>
  \<open>ReadByte\<close>: fill the empty buffer until it holds a byte or an error is pending
  (\<open>readErr\<close> hands the pending error out and clears it).
\<close>

function ReadByte :: "Reader \<Rightarrow> char result \<times> Reader" where
  "ReadByte b =
     (if buf b = [] then
        (case err b of
           Some e \<Rightarrow> (Err e, b\<lparr>err := None\<rparr>)
         | None \<Rightarrow> ReadByte (fill b))
      else (Ok (hd (buf b)), b\<lparr>buf := tl (buf b)\<rparr>))"
  by pat_completeness auto
termination
proof (relation "measure (\<lambda>b. if buf b \<noteq> [] then 0 else if err b \<noteq> None then 1 else 2)")
  show "wf (measure (\<lambda>b. if buf b \<noteq> [] then 0 else if err b \<noteq> None then 1 else 2))" by simp
next
  fix b :: Reader
  assume a: "buf b = []" "err b = None"
  then have "length (buf b) < defaultBufSize" by (simp add: defaultBufSize_def)
  from fill_cases [OF this] a
  show "(fill b, b) \<in> measure (\<lambda>b. if buf b \<noteq> [] then 0 else if err b \<noteq> None then 1 else 2)"
    by auto
qed


text \<open>
  \<open>ReadSlice\<close>: search the buffer for the delimiter; without it, hand out a pending
  error with what is buffered, or report a full buffer, or fill and search again.
\<close>

function ReadSlice :: "char \<Rightarrow> Reader \<Rightarrow> (string \<times> go_error option) \<times> Reader" where
  "ReadSlice delim b =
     (if delim \<in> set (buf b) then
        (let i = length (takeWhile (\<lambda>c. c \<noteq> delim) (buf b))
         in ((take (i + 1) (buf b), None), b\<lparr>buf := drop (i + 1) (buf b)\<rparr>))
      else
        (case err b of
           Some e \<Rightarrow> ((buf b, Some e), b\<lparr>buf := [], err := None\<rparr>)
         | None \<Rightarrow>
             if defaultBufSize \<le> length (buf b)
             then ((buf b, Some ErrBufferFull), b\<lparr>buf := []\<rparr>)
             else ReadSlice delim (fill b)))"
  by pat_completeness auto
termination
proof (relation "measure (\<lambda>(d, b). if err b \<noteq> None then 0 else Suc (length (concat (rd b))))")
  show "wf (measure (\<lambda>(d, b). if err b \<noteq> None then 0 else Suc (length (concat (rd b)))))"
    by simp
next
  fix delim :: char and b :: Reader
  assume a: "err b = None" "\<not> defaultBufSize \<le> length (buf b)"
  then have "length (buf b) < defaultBufSize" by simp
  from fill_cases [OF this]
  show "((delim, fill b), (delim, b))
          \<in> measure (\<lambda>(d, b). if err b \<noteq> None then 0 else Suc (length (concat (rd b))))"
  proof
    assume "concat (rd b) = [] \<and> fill b = b\<lparr>rd := [], err := Some EOF\<rparr>"
    then show ?thesis using a by simp
  next
    assume "\<exists>bs cs. bs \<noteq> [] \<and> bs @ concat cs = concat (rd b) \<and>
              length (buf b) + length bs \<le> defaultBufSize \<and>
              fill b = b\<lparr>buf := buf b @ bs, rd := cs\<rparr>"
    then obtain bs cs where h: "bs \<noteq> []" "bs @ concat cs = concat (rd b)"
      "fill b = b\<lparr>buf := buf b @ bs, rd := cs\<rparr>" by blast
    have "length (bs @ concat cs) = length (concat (rd b))" using h(2) by simp
    then have "length (concat (rd b)) = length bs + length (concat cs)" by simp
    then show ?thesis using a h(1,3) by simp
  qed
qed

declare ReadByte.simps [simp del] ReadSlice.simps [simp del]

definition pending :: "Reader \<Rightarrow> nat" where
  "pending b = length (remaining b) + (if err b = Some ErrBufferFull then 1 else 0)"

lemma ReadSlice_full_decreases:
  "ReadSlice delim b = ((frag, Some ErrBufferFull), b') \<Longrightarrow> pending b' < pending b"
proof (induction delim b rule: ReadSlice.induct)
  case (1 delim b)
  show ?case
  proof (cases "delim \<in> set (buf b)")
    case True
    with "1.prems" show ?thesis by (simp add: ReadSlice.simps [of delim b] Let_def)
  next
    case nd: False
    show ?thesis
    proof (cases "err b")
      case (Some e)
      with nd "1.prems" show ?thesis
        by (auto simp: ReadSlice.simps [of delim b] pending_def remaining_def)
    next
      case None
      show ?thesis
      proof (cases "defaultBufSize \<le> length (buf b)")
        case True
        then have "buf b \<noteq> []" by (auto simp: defaultBufSize_def)
        with nd None True "1.prems" show ?thesis
          by (auto simp: ReadSlice.simps [of delim b] pending_def remaining_def)
      next
        case False
        then have lt: "length (buf b) < defaultBufSize" by simp
        from nd None False "1.prems"
        have r: "ReadSlice delim (fill b) = ((frag, Some ErrBufferFull), b')"
          by (simp add: ReadSlice.simps [of delim b])
        have "pending b' < pending (fill b)" using "1.IH" [OF nd None False r] .
        moreover have "pending (fill b) = pending b"
          using fill_remaining [OF lt] fill_err [OF lt] None by (auto simp: pending_def)
        ultimately show ?thesis by simp
      qed
    qed
  qed
qed

text \<open>
  \<open>collectFragments\<close> and \<open>ReadString\<close>: call \<open>ReadSlice\<close> until it finds the delimiter
  or fails with something else than a full buffer; the result is all the fragments, in
  order (\<open>full\<close> holds the full buffers collected so far).
\<close>

function collectFragments :: "char \<Rightarrow> string \<Rightarrow> Reader \<Rightarrow> (string \<times> go_error option) \<times> Reader" where
  "collectFragments delim full b =
     (case ReadSlice delim b of
        ((frag, e), b') \<Rightarrow>
          if e = None then ((full @ frag, None), b')
          else if e \<noteq> Some ErrBufferFull then ((full @ frag, e), b')
          else collectFragments delim (full @ frag) b')"
  by pat_completeness auto
termination
  by (relation "measure (\<lambda>(d, full, b). pending b)") (auto dest: ReadSlice_full_decreases [OF sym])

declare collectFragments.simps [simp del]

definition ReadString :: "char \<Rightarrow> Reader \<Rightarrow> (string \<times> go_error option) \<times> Reader" where
  "ReadString delim b = collectFragments delim [] b"

text \<open>
  \<open>Read(p)\<close> with \<open>len(p) = n\<close>: the bytes are taken from the buffer if it holds any, and
  from at most one \<open>Read\<close> of the connection otherwise, so fewer than \<open>n\<close> bytes may be
  returned. The result is the bytes copied into \<open>p\<close> and the error.
\<close>

definition Read :: "nat \<Rightarrow> Reader \<Rightarrow> (string \<times> go_error option) \<times> Reader" where
  "Read n b =
     (if n = 0 then
        (if buf b \<noteq> [] then (([], None), b) else (([], err b), b\<lparr>err := None\<rparr>))
      else if buf b = [] then
        (case err b of
           Some e \<Rightarrow> (([], Some e), b\<lparr>err := None\<rparr>)
         | None \<Rightarrow>
             if defaultBufSize \<le> n then
               (case conn_Read n (rd b) of (bs, e, cs) \<Rightarrow> ((bs, e), b\<lparr>rd := cs\<rparr>))
             else
               (case conn_Read defaultBufSize (rd b) of
                  (bs, e, cs) \<Rightarrow>
                    if bs = [] then (([], e), b\<lparr>rd := cs\<rparr>)
                    else ((take n bs, None), b\<lparr>buf := drop n bs, err := e, rd := cs\<rparr>)))
      else ((take n (buf b), None), b\<lparr>buf := drop n (buf b)\<rparr>))"


text \<open>
  The states a reader of this program can be in: the buffer holds at most its size, and
  a pending error is the end of a closed connection.
\<close>

definition wf_Reader :: "Reader \<Rightarrow> bool" where
  "wf_Reader b =
     (length (buf b) \<le> defaultBufSize \<and> (err b = None \<or> (err b = Some EOF \<and> rd b = [])))"

lemma wf_NewReader: "wf_Reader (NewReader conn)"
  by (simp add: wf_Reader_def NewReader_def)

lemma remaining_NewReader: "remaining (NewReader conn) = concat conn"
  by (simp add: remaining_def NewReader_def)

lemma fill_wf:
  assumes "length (buf b) < defaultBufSize" "wf_Reader b"
  shows "wf_Reader (fill b)"
  using fill_cases [OF assms(1)] assms(2) by (auto simp: wf_Reader_def)

lemma ReadByte_Cons:
  assumes "wf_Reader b" "remaining b = c # s"
  shows "\<exists>b'. ReadByte b = (Ok c, b') \<and> remaining b' = s \<and> wf_Reader b'"
proof (cases "buf b")
  case (Cons x xs)
  then have "ReadByte b = (Ok x, b\<lparr>buf := xs\<rparr>)" by (simp add: ReadByte.simps [of b])
  moreover have "x = c" "xs @ concat (rd b) = s" using assms(2) Cons by (auto simp: remaining_def)
  ultimately show ?thesis using assms(1) Cons by (auto simp: remaining_def wf_Reader_def)
next
  case Nil
  then have lt: "length (buf b) < defaultBufSize" by (simp add: defaultBufSize_def)
  have ne: "concat (rd b) \<noteq> []" using assms(2) Nil by (auto simp: remaining_def)
  then have e: "err b = None" using assms(1) by (auto simp: wf_Reader_def)
  from fill_cases [OF lt] ne obtain bs cs where
    h: "bs \<noteq> []" "bs @ concat cs = concat (rd b)" "length (buf b) + length bs \<le> defaultBufSize"
       "fill b = b\<lparr>buf := buf b @ bs, rd := cs\<rparr>" by blast
  have b1: "ReadByte b = ReadByte (fill b)" using Nil e by (simp add: ReadByte.simps [of b])
  have "buf (fill b) = bs" using h(4) Nil by simp
  then have b2: "ReadByte (fill b) = (Ok (hd bs), (fill b)\<lparr>buf := tl bs\<rparr>)"
    using h(1) by (simp add: ReadByte.simps [of "fill b"])
  have "bs @ concat cs = c # s" using h(2) assms(2) Nil by (simp add: remaining_def)
  then have "hd bs = c" "tl bs @ concat cs = s" using h(1) by (cases bs; simp)+
  moreover have "length (tl bs) \<le> defaultBufSize" using h(3) by simp
  ultimately show ?thesis using b1 b2 h(4) e
    by (auto simp: remaining_def wf_Reader_def)
qed

lemma ReadByte_Nil:
  assumes "wf_Reader b" "remaining b = []"
  shows "\<exists>b'. ReadByte b = (Err EOF, b') \<and> remaining b' = [] \<and> wf_Reader b'"
proof -
  have Nil: "buf b = []" and c: "concat (rd b) = []" using assms(2) by (auto simp: remaining_def)
  have lt: "length (buf b) < defaultBufSize" using Nil by (simp add: defaultBufSize_def)
  show ?thesis
  proof (cases "err b")
    case (Some e)
    then have "e = EOF" using assms(1) by (auto simp: wf_Reader_def)
    then have "ReadByte b = (Err EOF, b\<lparr>err := None\<rparr>)"
      using Some Nil by (simp add: ReadByte.simps [of b])
    then show ?thesis using assms Nil c by (auto simp: remaining_def wf_Reader_def)
  next
    case None
    from fill_cases [OF lt] c have f: "fill b = b\<lparr>rd := [], err := Some EOF\<rparr>" by auto
    have "ReadByte b = ReadByte (fill b)" using Nil None by (simp add: ReadByte.simps [of b])
    also have "\<dots> = (Err EOF, (fill b)\<lparr>err := None\<rparr>)"
    proof -
      have "buf (fill b) = []" "err (fill b) = Some EOF" using f Nil by simp_all
      then show ?thesis by (subst ReadByte.simps) simp
    qed
    finally show ?thesis using f Nil by (auto simp: remaining_def wf_Reader_def)
  qed
qed

lemma first_delim:
  "xs @ ys = pre @ d # s \<Longrightarrow> d \<notin> set pre \<Longrightarrow> d \<in> set xs \<Longrightarrow>
     \<exists>rest. xs = pre @ d # rest \<and> s = rest @ ys"
proof (induction pre arbitrary: xs)
  case Nil
  then show ?case by (cases xs) auto
next
  case (Cons p pre)
  then obtain x xs' where x: "xs = x # xs'" by (cases xs) auto
  with Cons.prems have "x = p" "xs' @ ys = pre @ d # s" "d \<notin> set pre" "d \<in> set xs'" by auto
  with Cons.IH [of xs'] x show ?case by auto
qed

lemma no_delim_prefix:
  "xs @ ys = pre @ d # s \<Longrightarrow> d \<notin> set xs \<Longrightarrow> \<exists>pre'. pre = xs @ pre' \<and> ys = pre' @ d # s"
proof (induction xs arbitrary: pre)
  case Nil
  then show ?case by simp
next
  case (Cons x xs)
  then obtain p pre2 where p: "pre = p # pre2" by (cases pre) auto
  with Cons.prems have "x = p" "xs @ ys = pre2 @ d # s" "d \<notin> set xs" by auto
  with Cons.IH [of pre2] p show ?case by auto
qed

lemma takeWhile_first: "d \<notin> set pre \<Longrightarrow> takeWhile (\<lambda>c. c \<noteq> d) (pre @ d # rest) = pre"
  by (induction pre) auto

lemma ReadSlice_spec:
  "wf_Reader b \<Longrightarrow> remaining b = pre @ d # s \<Longrightarrow> d \<notin> set pre \<Longrightarrow>
     (\<exists>b'. ReadSlice d b = ((pre @ [d], None), b') \<and> remaining b' = s \<and> wf_Reader b') \<or>
     (\<exists>frag pre' b'. ReadSlice d b = ((frag, Some ErrBufferFull), b') \<and> pre = frag @ pre' \<and>
        remaining b' = pre' @ d # s \<and> wf_Reader b')"
proof (induction d b arbitrary: pre rule: ReadSlice.induct)
  case (1 delim b)
  show ?case
  proof (cases "delim \<in> set (buf b)")
    case True
    from first_delim [OF "1.prems"(2) [unfolded remaining_def] "1.prems"(3) True]
    obtain rest where r: "buf b = pre @ delim # rest" "s = rest @ concat (rd b)" by blast
    have "ReadSlice delim b = ((pre @ [delim], None), b\<lparr>buf := rest\<rparr>)"
      using True r(1) "1.prems"(3)
      by (simp add: ReadSlice.simps [of delim b] takeWhile_first Let_def)
    moreover have "wf_Reader (b\<lparr>buf := rest\<rparr>)"
      using "1.prems"(1) r(1) by (auto simp: wf_Reader_def)
    ultimately show ?thesis using r(2) by (auto simp: remaining_def)
  next
    case nd: False
    from no_delim_prefix [OF "1.prems"(2) [unfolded remaining_def] nd]
    obtain pre' where p: "pre = buf b @ pre'" "concat (rd b) = pre' @ delim # s" by blast
    then have ne: "rd b \<noteq> []" by auto
    then have None: "err b = None" using "1.prems"(1) by (auto simp: wf_Reader_def)
    show ?thesis
    proof (cases "defaultBufSize \<le> length (buf b)")
      case True
      then have "ReadSlice delim b = ((buf b, Some ErrBufferFull), b\<lparr>buf := []\<rparr>)"
        using nd None by (simp add: ReadSlice.simps [of delim b])
      moreover have "wf_Reader (b\<lparr>buf := []\<rparr>)" using None by (simp add: wf_Reader_def)
      ultimately show ?thesis using p by (auto simp: remaining_def)
    next
      case False
      then have lt: "length (buf b) < defaultBufSize" by simp
      have eq: "ReadSlice delim b = ReadSlice delim (fill b)"
        using nd None False by (simp add: ReadSlice.simps [of delim b])
      have "remaining (fill b) = pre @ delim # s"
        using fill_remaining [OF lt] "1.prems"(2) by simp
      from "1.IH" [OF nd None False fill_wf [OF lt "1.prems"(1)] this "1.prems"(3)]
      show ?thesis by (simp only: eq)
    qed
  qed
qed

lemma collectFragments_spec:
  "wf_Reader b \<Longrightarrow> remaining b = pre @ d # s \<Longrightarrow> d \<notin> set pre \<Longrightarrow>
     \<exists>b'. collectFragments d full b = ((full @ pre @ [d], None), b') \<and> remaining b' = s \<and>
       wf_Reader b'"
proof (induction d full b arbitrary: pre rule: collectFragments.induct)
  case (1 delim full b)
  from ReadSlice_spec [OF "1.prems"] show ?case
  proof
    assume "\<exists>b'. ReadSlice delim b = ((pre @ [delim], None), b') \<and> remaining b' = s \<and> wf_Reader b'"
    then show ?thesis by (auto simp: collectFragments.simps [of delim full b])
  next
    assume "\<exists>frag pre' b'. ReadSlice delim b = ((frag, Some ErrBufferFull), b') \<and>
        pre = frag @ pre' \<and> remaining b' = pre' @ delim # s \<and> wf_Reader b'"
    then obtain frag pre' b' where h: "ReadSlice delim b = ((frag, Some ErrBufferFull), b')"
      "pre = frag @ pre'" "remaining b' = pre' @ delim # s" "wf_Reader b'" by blast
    have "delim \<notin> set pre'" using h(2) "1.prems"(3) by simp
    from "1.IH" [OF h(1) [symmetric] refl _ _ h(4) h(3) this]
    obtain b'' where "collectFragments delim (full @ frag) b' = (((full @ frag) @ pre' @ [delim], None), b'')"
      "remaining b'' = s" "wf_Reader b''" by auto
    then show ?thesis using h(1,2) by (auto simp: collectFragments.simps [of delim full b])
  qed
qed

lemma ReadString_line:
  assumes "wf_Reader b" "remaining b = pre @ d # s" "d \<notin> set pre"
  shows "\<exists>b'. ReadString d b = ((pre @ [d], None), b') \<and> remaining b' = s \<and> wf_Reader b'"
  using collectFragments_spec [OF assms, of "[]"] by (simp add: ReadString_def)

subsection \<open>RESP values (resp.go)\<close>

type_synonym RESPType = char

definition SimpleString :: RESPType where
  "SimpleString = CHR ''+''"

definition Error :: RESPType where
  "Error = CHR ''-''"

definition Integer :: RESPType where
  "Integer = CHR '':''"

definition BulkString :: RESPType where
  "BulkString = CHR ''$''"

definition Array :: RESPType where
  "Array = CHR ''*''"

text \<open>
  The struct \<open>RESPValue\<close>; its field \<open>Array\<close> is \<open>Array'\<close> here, the name \<open>Array\<close> being
  the type tag's. A field that a composite literal leaves out has its zero value.
\<close>

datatype RESPValue =
  RESPValue (Type: RESPType) (Str: string) (Num: int) (Bulk: string) (Array': "RESPValue list")

subsection \<open>The parser\<close>

text \<open>\<open>readLine\<close>: \<open>ReadString('\n')\<close>, then \<open>strings.TrimSuffix(line, "\r\n")\<close>.\<close>

definition readLine :: "Reader \<Rightarrow> string result \<times> Reader" where
  "readLine b =
     (case ReadString LF b of
        ((line, Some e), b') \<Rightarrow> (Err e, b')
      | ((line, None), b') \<Rightarrow> (Ok (TrimSuffix line CRLF), b'))"

definition parseSimpleString :: "Reader \<Rightarrow> RESPValue result \<times> Reader" where
  "parseSimpleString b =
     (case readLine b of
        (Ok line, b') \<Rightarrow> (Ok (RESPValue SimpleString line 0 [] []), b')
      | (Err e, b') \<Rightarrow> (Err e, b')
      | (Panic, b') \<Rightarrow> (Panic, b'))"

definition parseError :: "Reader \<Rightarrow> RESPValue result \<times> Reader" where
  "parseError b =
     (case readLine b of
        (Ok line, b') \<Rightarrow> (Ok (RESPValue Error line 0 [] []), b')
      | (Err e, b') \<Rightarrow> (Err e, b')
      | (Panic, b') \<Rightarrow> (Panic, b'))"

definition parseInteger :: "Reader \<Rightarrow> RESPValue result \<times> Reader" where
  "parseInteger b =
     (case readLine b of
        (Ok line, b') \<Rightarrow>
          (case Atoi line of
             Inl e \<Rightarrow> (Err e, b')
           | Inr num \<Rightarrow> (Ok (RESPValue Integer [] num [] []), b'))
      | (Err e, b') \<Rightarrow> (Err e, b')
      | (Panic, b') \<Rightarrow> (Panic, b'))"

text \<open>
  \<open>parseBulkString\<close>. \<open>make([]byte, length)\<close> panics on a negative length and gives
  \<open>length\<close> zero bytes otherwise; \<open>Read\<close> overwrites as many of them as it returns, and its
  count is dropped (\<open>_, err = p.reader.Read(bulk)\<close>). The results of the two \<open>ReadByte\<close>
  calls for the trailing \<open>\r\n\<close> are dropped too.
\<close>

definition parseBulkString :: "Reader \<Rightarrow> RESPValue result \<times> Reader" where
  "parseBulkString b =
     (case readLine b of
        (Ok line, b1) \<Rightarrow>
          (case Atoi line of
             Inl e \<Rightarrow> (Err e, b1)
           | Inr len \<Rightarrow>
               if len = - 1 then (Ok (RESPValue BulkString [] 0 [] []), b1)
               else if len < 0 then (Panic, b1)
               else
                 (case Read (nat len) b1 of
                    ((bs, Some e), b2) \<Rightarrow> (Err e, b2)
                  | ((bs, None), b2) \<Rightarrow>
                      (let bulk = bs @ replicate (nat len - length bs) (CHR 0x00);
                           b3 = snd (ReadByte b2);
                           b4 = snd (ReadByte b3)
                       in (Ok (RESPValue BulkString [] 0 bulk []), b4))))
      | (Err e, b1) \<Rightarrow> (Err e, b1)
      | (Panic, b1) \<Rightarrow> (Panic, b1))"

text \<open>
  \<open>Parse\<close> and \<open>parseArray\<close> call each other, and \<open>Parse\<close> loops over stray \<open>\r\<close> and
  \<open>\n\<close>. The first argument bounds the number of calls and iterations; \<open>None\<close> is a
  run it did not suffice for. \<open>parseArray_loop\<close> is the \<open>for\<close> loop of \<open>parseArray\<close>, with
  the number of elements still to read and the elements read so far.
\<close>

fun Parse :: "nat \<Rightarrow> Reader \<Rightarrow> (RESPValue result \<times> Reader) option"
  and parseArray :: "nat \<Rightarrow> Reader \<Rightarrow> (RESPValue result \<times> Reader) option"
  and parseArray_loop :: "nat \<Rightarrow> nat \<Rightarrow> RESPValue list \<Rightarrow> Reader \<Rightarrow> (RESPValue result \<times> Reader) option"
  where
  "Parse 0 b = None"
| "Parse (Suc fuel) b =
     (case ReadByte b of
        (Ok typeByte, b') \<Rightarrow>
          if typeByte = CR \<or> typeByte = LF then Parse fuel b'
          else if typeByte = Array then parseArray fuel b'
          else if typeByte = BulkString then Some (parseBulkString b')
          else if typeByte = SimpleString then Some (parseSimpleString b')
          else if typeByte = Error then Some (parseError b')
          else if typeByte = Integer then Some (parseInteger b')
          else Some (Err (UnknownRESPType typeByte), b')
      | (Err e, b') \<Rightarrow> Some (Err e, b')
      | (Panic, b') \<Rightarrow> Some (Panic, b'))"
| "parseArray fuel b =
     (case readLine b of
        (Ok line, b') \<Rightarrow>
          (case Atoi line of
             Inl e \<Rightarrow> Some (Err e, b')
           | Inr count \<Rightarrow>
               if count < 0 then Some (Panic, b')
               else parseArray_loop fuel (nat count) [] b')
      | (Err e, b') \<Rightarrow> Some (Err e, b')
      | (Panic, b') \<Rightarrow> Some (Panic, b'))"
| "parseArray_loop fuel 0 array b = Some (Ok (RESPValue Array [] 0 [] array), b)"
| "parseArray_loop fuel (Suc n) array b =
     (case Parse fuel b of
        None \<Rightarrow> None
      | Some (Ok val, b') \<Rightarrow> parseArray_loop fuel n (array @ [val]) b'
      | Some (Err e, b') \<Rightarrow> Some (Err e, b')
      | Some (Panic, b') \<Rightarrow> Some (Panic, b'))"

subsection \<open>The writer\<close>

text \<open>
  A \<open>RESPWriter\<close> is the bytes written to the connection so far; each write appends its
  frame and flushes. (A write to a broken connection fails; that is not modelled.)
\<close>

type_synonym RESPWriter = string

definition WriteSimpleString :: "string \<Rightarrow> RESPWriter \<Rightarrow> RESPWriter" where
  "WriteSimpleString s w = w @ ''+'' @ s @ CRLF"

definition WriteError :: "string \<Rightarrow> RESPWriter \<Rightarrow> RESPWriter" where
  "WriteError msg w = w @ ''-'' @ msg @ CRLF"

definition WriteBulkString :: "string \<Rightarrow> RESPWriter \<Rightarrow> RESPWriter" where
  "WriteBulkString s w = w @ ''$'' @ Itoa (int (length s)) @ CRLF @ s @ CRLF"

definition WriteInteger :: "int \<Rightarrow> RESPWriter \<Rightarrow> RESPWriter" where
  "WriteInteger num w = w @ '':'' @ Itoa num @ CRLF"

definition WriteNullBulkString :: "RESPWriter \<Rightarrow> RESPWriter" where
  "WriteNullBulkString w = w @ ''$-1'' @ CRLF"

subsection \<open>Properties of the parser\<close>

lemma CR_neq_LF [simp]: "CR \<noteq> LF" "LF \<noteq> CR"
  by (simp_all add: CR_def LF_def)

lemma TrimSuffix_CRLF: "TrimSuffix (line @ CRLF) CRLF = line"
  by (simp add: TrimSuffix_def HasSuffix_def CRLF_def)

lemma TrimSuffix_bare_LF:
  "\<not> (pre \<noteq> [] \<and> last pre = CR) \<Longrightarrow> TrimSuffix (pre @ [LF]) CRLF = pre @ [LF]"
proof (cases pre rule: rev_cases)
  case Nil
  then show ?thesis by (simp add: TrimSuffix_def HasSuffix_def CRLF_def)
next
  case (snoc ys y)
  assume "\<not> (pre \<noteq> [] \<and> last pre = CR)"
  with snoc have "y \<noteq> CR" by simp
  then show ?thesis using snoc by (auto simp: TrimSuffix_def HasSuffix_def CRLF_def)
qed

lemma readLine_spec:
  assumes "wf_Reader b" "remaining b = pre @ LF # s" "LF \<notin> set pre"
  shows "\<exists>b'. readLine b = (Ok (TrimSuffix (pre @ [LF]) CRLF), b') \<and> remaining b' = s \<and>
           wf_Reader b'"
  using ReadString_line [OF assms] by (auto simp: readLine_def)

lemma readLine_CRLF:
  assumes "wf_Reader b" "remaining b = line @ CRLF @ rest" "LF \<notin> set line"
  shows "\<exists>b'. readLine b = (Ok line, b') \<and> remaining b' = rest \<and> wf_Reader b'"
proof -
  have r: "remaining b = (line @ [CR]) @ LF # rest" using assms(2) by (simp add: CRLF_def)
  have n: "LF \<notin> set (line @ [CR])" using assms(3) by simp
  have "TrimSuffix ((line @ [CR]) @ [LF]) CRLF = line"
    using TrimSuffix_CRLF [of line] by (simp add: CRLF_def)
  with readLine_spec [OF assms(1) r n] show ?thesis by simp
qed

lemma digitsVal_digits: "digitsVal n s = Some m \<Longrightarrow> c \<in> set s \<Longrightarrow> isDigit c"
  by (induction s arbitrary: n) (auto split: if_splits)

lemma isDigit_not_CRLF [simp]: "\<not> isDigit LF" "\<not> isDigit CR"
  by (simp_all add: isDigit_def LF_def CR_def)

lemma Atoi_no_LF:
  assumes "Atoi line = Inr n"
  shows "LF \<notin> set line"
proof
  assume l: "LF \<in> set line"
  then obtain c cs where s: "line = c # cs" by (cases line) auto
  define ds where "ds = (if c = CHR ''-'' \<or> c = CHR ''+'' then cs else line)"
  from assms s obtain m where m: "digitsVal 0 ds = Some m"
    by (auto simp: Atoi_def Let_def ds_def split: if_splits option.splits)
  have "LF \<in> set ds" using l s by (auto simp: ds_def LF_def)
  then have "isDigit LF" by (rule digitsVal_digits [OF m])
  then show False by simp
qed


lemma ReadByte_tag:
  assumes "wf_Reader b" "remaining b = c # s"
  obtains b' where "ReadByte b = (Ok c, b')" "remaining b' = s" "wf_Reader b'"
  using ReadByte_Cons [OF assms] by blast

text \<open>
  Claim C8 says that \<open>readLine\<close> strips a bare \<open>\n\<close> when no \<open>\r\<close> precedes it. It does
  not: on the stream \<open>abc\n\<close> the line returned is \<open>abc\n\<close>, the \<open>\n\<close> still in it.
\<close>

theorem C8_bare_LF_kept:
  "fst (readLine (NewReader [''abc'' @ [LF]])) = Ok (''abc'' @ [LF])"
proof -
  have "wf_Reader (NewReader [''abc'' @ [LF]])" by (rule wf_NewReader)
  moreover have "remaining (NewReader [''abc'' @ [LF]]) = ''abc'' @ LF # []"
    by (simp add: remaining_NewReader)
  moreover have "LF \<notin> set ''abc''" by (simp add: LF_def)
  ultimately obtain b' where "readLine (NewReader [''abc'' @ [LF]]) = (Ok (TrimSuffix (''abc'' @ [LF]) CRLF), b')"
    using readLine_spec by blast
  moreover have "TrimSuffix (''abc'' @ [LF]) CRLF = ''abc'' @ [LF]"
    by (rule TrimSuffix_bare_LF) (simp add: CR_def)
  ultimately show ?thesis by simp
qed

text \<open>
  Claim C8, amended: on every stream with a \<open>\n\<close> in it, \<open>readLine\<close> consumes the bytes up to
  and including the first \<open>\n\<close>, and returns them without the trailing \<open>\r\n\<close> when the
  \<open>\n\<close> follows a \<open>\r\<close>; when it does not, nothing is stripped and the line returned still
  ends with that \<open>\n\<close>.
\<close>

theorem C8_readLine:
  assumes "wf_Reader b" "remaining b = pre @ LF # s" "LF \<notin> set pre"
  shows "\<exists>b'. readLine b =
            (Ok (if pre \<noteq> [] \<and> last pre = CR then butlast pre else pre @ [LF]), b') \<and>
          remaining b' = s \<and> wf_Reader b'"
proof (cases "pre \<noteq> [] \<and> last pre = CR")
  case True
  then have "pre = butlast pre @ [CR]" by (metis append_butlast_last_id)
  then have "pre @ [LF] = butlast pre @ CRLF" by (simp add: CRLF_def)
  then have "TrimSuffix (pre @ [LF]) CRLF = butlast pre"
    by (simp only: TrimSuffix_CRLF)
  with readLine_spec [OF assms] True show ?thesis by simp
next
  case False
  with readLine_spec [OF assms] TrimSuffix_bare_LF [OF False] show ?thesis by auto
qed

theorem C8_readLine_witness:
  "\<exists>b'. readLine (NewReader [''+OK'' @ CRLF, ''+x'' @ [LF]]) = (Ok ''+OK'', b') \<and>
     remaining b' = ''+x'' @ [LF] \<and> wf_Reader b'"
proof -
  have 1: "wf_Reader (NewReader [''+OK'' @ CRLF, ''+x'' @ [LF]])" by (rule wf_NewReader)
  have 2: "remaining (NewReader [''+OK'' @ CRLF, ''+x'' @ [LF]]) = (''+OK'' @ [CR]) @ LF # (''+x'' @ [LF])"
    by (simp add: remaining_NewReader CRLF_def)
  have 3: "LF \<notin> set (''+OK'' @ [CR])" by (simp add: LF_def CR_def)
  show ?thesis using C8_readLine [OF 1 2 3] by simp
qed


lemma tags_not_stray [simp]:
  "Array \<noteq> CR" "Array \<noteq> LF" "BulkString \<noteq> CR" "BulkString \<noteq> LF"
  "SimpleString \<noteq> CR" "SimpleString \<noteq> LF" "Error \<noteq> CR" "Error \<noteq> LF"
  "Integer \<noteq> CR" "Integer \<noteq> LF"
  by (simp_all add: Array_def BulkString_def SimpleString_def Error_def Integer_def CR_def LF_def)

lemma tags_distinct [simp]:
  "BulkString \<noteq> Array" "SimpleString \<noteq> Array" "SimpleString \<noteq> BulkString"
  "Error \<noteq> Array" "Error \<noteq> BulkString" "Error \<noteq> SimpleString"
  "Integer \<noteq> Array" "Integer \<noteq> BulkString" "Integer \<noteq> SimpleString" "Integer \<noteq> Error"
  by (simp_all add: Array_def BulkString_def SimpleString_def Error_def Integer_def)

lemma Parse_Array:
  assumes "wf_Reader b" "remaining b = Array # s"
  shows "\<exists>b'. Parse (Suc fuel) b = parseArray fuel b' \<and> remaining b' = s \<and> wf_Reader b'"
  using ReadByte_Cons [OF assms] by auto

lemma Parse_BulkString:
  assumes "wf_Reader b" "remaining b = BulkString # s"
  shows "\<exists>b'. Parse (Suc fuel) b = Some (parseBulkString b') \<and> remaining b' = s \<and> wf_Reader b'"
  using ReadByte_Cons [OF assms] by auto

lemma Parse_SimpleString:
  assumes "wf_Reader b" "remaining b = SimpleString # s"
  shows "\<exists>b'. Parse (Suc fuel) b = Some (parseSimpleString b') \<and> remaining b' = s \<and> wf_Reader b'"
  using ReadByte_Cons [OF assms] by auto

lemma Parse_Error:
  assumes "wf_Reader b" "remaining b = Error # s"
  shows "\<exists>b'. Parse (Suc fuel) b = Some (parseError b') \<and> remaining b' = s \<and> wf_Reader b'"
  using ReadByte_Cons [OF assms] by auto

lemma Parse_Integer:
  assumes "wf_Reader b" "remaining b = Integer # s"
  shows "\<exists>b'. Parse (Suc fuel) b = Some (parseInteger b') \<and> remaining b' = s \<and> wf_Reader b'"
  using ReadByte_Cons [OF assms] by auto

text \<open>
  Claim C10: on an array frame whose count line parses as a negative integer (such as
  \<open>*-1\r\n\<close>), the decoder returns neither a value nor an error: \<open>make\<close> panics on the
  negative length. Nothing on the way up (\<open>Parse\<close>, \<open>Connection.Handle\<close>, the goroutine of
  \<open>main\<close>) recovers from a panic.
\<close>

theorem C10_negative_count_panics:
  assumes "wf_Reader b" "remaining b = Array # line @ CRLF @ rest"
    and "Atoi line = Inr count" "count < 0"
  shows "\<exists>b'. Parse (Suc fuel) b = Some (Panic, b')"
proof -
  from Parse_Array [OF assms(1,2)] obtain b1 where
    p: "Parse (Suc fuel) b = parseArray fuel b1" and r: "remaining b1 = line @ CRLF @ rest"
    and w: "wf_Reader b1" by blast
  from readLine_CRLF [OF w r Atoi_no_LF [OF assms(3)]] obtain b2 where
    "readLine b1 = (Ok line, b2)" by blast
  then have "parseArray fuel b1 = Some (Panic, b2)" using assms(3,4) by simp
  with p show ?thesis by simp
qed

lemma Atoi_minus_1: "Atoi ''-1'' = Inr (- 1)"
  by (simp add: Atoi_def isDigit_def digitVal_def)

theorem C10_negative_count_panics_witness:
  "\<exists>b'. Parse (Suc 0) (NewReader [''*-1'' @ CRLF]) = Some (Panic, b')"
proof -
  have 1: "wf_Reader (NewReader [''*-1'' @ CRLF])" by (rule wf_NewReader)
  have 2: "remaining (NewReader [''*-1'' @ CRLF]) = Array # ''-1'' @ CRLF @ []"
    by (simp add: remaining_NewReader Array_def)
  have 3: "(- 1 :: int) < 0" by simp
  show ?thesis using C10_negative_count_panics [OF 1 2 Atoi_minus_1 3, of 0] .
qed

text \<open>The frames \<open>$-1\r\n\<close> (null) and \<open>$0\r\n\r\n\<close> (empty), and any other way to write
  their lengths.\<close>

lemma parseBulkString_null:
  assumes "wf_Reader b" "remaining b = line @ CRLF @ rest" "Atoi line = Inr (- 1)"
  shows "\<exists>b'. parseBulkString b = (Ok (RESPValue BulkString [] 0 [] []), b') \<and>
           remaining b' = rest \<and> wf_Reader b'"
proof -
  from readLine_CRLF [OF assms(1,2) Atoi_no_LF [OF assms(3)]] obtain b' where
    "readLine b = (Ok line, b')" "remaining b' = rest" "wf_Reader b'" by blast
  then show ?thesis using assms(3) by (simp add: parseBulkString_def)
qed

lemma Read_0:
  assumes "wf_Reader b" "remaining b \<noteq> []"
  shows "Read 0 b = (([], None), b)"
proof (cases "buf b = []")
  case True
  with assms(2) have "rd b \<noteq> []" by (auto simp: remaining_def)
  with assms(1) have "err b = None" by (auto simp: wf_Reader_def)
  then have "b\<lparr>err := None\<rparr> = b" by simp
  with True \<open>err b = None\<close> show ?thesis by (simp add: Read_def)
next
  case False
  then show ?thesis by (simp add: Read_def)
qed

lemma parseBulkString_empty:
  assumes "wf_Reader b" "remaining b = line @ CRLF @ CRLF @ rest" "Atoi line = Inr 0"
  shows "\<exists>b'. parseBulkString b = (Ok (RESPValue BulkString [] 0 [] []), b') \<and>
           remaining b' = rest \<and> wf_Reader b'"
proof -
  from readLine_CRLF [OF assms(1,2) Atoi_no_LF [OF assms(3)]] obtain b1 where
    l: "readLine b = (Ok line, b1)" and r1: "remaining b1 = CR # LF # rest" and w1: "wf_Reader b1"
    by (auto simp: CRLF_def)
  have rd: "Read 0 b1 = (([], None), b1)" using Read_0 [OF w1] r1 by simp
  from ReadByte_Cons [OF w1 r1] obtain b2 where
    b2: "ReadByte b1 = (Ok CR, b2)" "remaining b2 = LF # rest" "wf_Reader b2" by blast
  from ReadByte_Cons [OF b2(3,2)] obtain b3 where
    b3: "ReadByte b2 = (Ok LF, b3)" "remaining b3 = rest" "wf_Reader b3" by blast
  show ?thesis using l rd b2 b3 assms(3) by (simp add: parseBulkString_def)
qed

text \<open>
  Claim C7 says that the value decoded from a frame of declared length \<open>-1\<close> carries a
  presence flag and can be told from the empty bulk string. \<open>RESPValue\<close> has no such field:
  the frames \<open>$-1\r\n\<close> and \<open>$0\r\n\r\n\<close> decode to the same value.
\<close>

theorem C7_null_equals_empty:
  "map_option fst (Parse (Suc 0) (NewReader [''$-1'' @ CRLF])) =
     map_option fst (Parse (Suc 0) (NewReader [''$0'' @ CRLF @ CRLF]))"
proof -
  have a1: "Atoi ''-1'' = Inr (- 1)" by (rule Atoi_minus_1)
  have a0: "Atoi ''0'' = Inr 0" by (simp add: Atoi_def isDigit_def digitVal_def)
  have "remaining (NewReader [''$-1'' @ CRLF]) = BulkString # ''-1'' @ CRLF @ []"
    by (simp add: remaining_NewReader BulkString_def)
  from Parse_BulkString [OF wf_NewReader this, of 0] obtain b1 where
    1: "Parse (Suc 0) (NewReader [''$-1'' @ CRLF]) = Some (parseBulkString b1)"
       "remaining b1 = ''-1'' @ CRLF @ []" "wf_Reader b1" by blast
  from parseBulkString_null [OF 1(3,2) a1] 1(1)
  have n: "map_option fst (Parse (Suc 0) (NewReader [''$-1'' @ CRLF])) = Some (Ok (RESPValue BulkString [] 0 [] []))"
    by (auto simp del: Parse.simps)
  have "remaining (NewReader [''$0'' @ CRLF @ CRLF]) = BulkString # ''0'' @ CRLF @ CRLF @ []"
    by (simp add: remaining_NewReader BulkString_def)
  from Parse_BulkString [OF wf_NewReader this, of 0] obtain b2 where
    2: "Parse (Suc 0) (NewReader [''$0'' @ CRLF @ CRLF]) = Some (parseBulkString b2)"
       "remaining b2 = ''0'' @ CRLF @ CRLF @ []" "wf_Reader b2" by blast
  from parseBulkString_empty [OF 2(3,2) a0] 2(1)
  have "map_option fst (Parse (Suc 0) (NewReader [''$0'' @ CRLF @ CRLF])) = Some (Ok (RESPValue BulkString [] 0 [] []))"
    by (auto simp del: Parse.simps)
  with n show ?thesis by (simp only:)
qed

text \<open>
  Claim C7, amended: decoding a bulk-string frame whose declared length is \<open>-1\<close> yields
  a value of type \<open>BulkString\<close> with an empty payload and consumes no bytes beyond the
  length line; it is the very value that a frame of declared length \<open>0\<close> decodes to.
\<close>

theorem C7_null_bulk_string:
  assumes "wf_Reader b" "remaining b = BulkString # line @ CRLF @ rest" "Atoi line = Inr (- 1)"
    and "wf_Reader b0" "remaining b0 = BulkString # line0 @ CRLF @ CRLF @ rest0" "Atoi line0 = Inr 0"
  shows "\<exists>v b' b0'. Parse (Suc fuel) b = Some (Ok v, b') \<and> remaining b' = rest \<and>
           Type v = BulkString \<and> Bulk v = [] \<and>
           Parse (Suc fuel) b0 = Some (Ok v, b0') \<and> remaining b0' = rest0"
proof -
  from Parse_BulkString [OF assms(1,2)] obtain b1 where
    1: "Parse (Suc fuel) b = Some (parseBulkString b1)" "remaining b1 = line @ CRLF @ rest"
       "wf_Reader b1" by blast
  from parseBulkString_null [OF 1(3,2) assms(3)] obtain b' where
    n: "parseBulkString b1 = (Ok (RESPValue BulkString [] 0 [] []), b')" "remaining b' = rest"
    by blast
  from Parse_BulkString [OF assms(4,5)] obtain b2 where
    2: "Parse (Suc fuel) b0 = Some (parseBulkString b2)"
       "remaining b2 = line0 @ CRLF @ CRLF @ rest0" "wf_Reader b2" by blast
  from parseBulkString_empty [OF 2(3,2) assms(6)] obtain b0' where
    e: "parseBulkString b2 = (Ok (RESPValue BulkString [] 0 [] []), b0')" "remaining b0' = rest0"
    by blast
  show ?thesis using 1(1) n 2(1) e by (simp del: Parse.simps)
qed

theorem C7_null_bulk_string_witness:
  "\<exists>v b' b0'. Parse (Suc 0) (NewReader [''$-1'' @ CRLF @ ''+OK'' @ CRLF]) = Some (Ok v, b') \<and>
     remaining b' = ''+OK'' @ CRLF \<and> Type v = BulkString \<and> Bulk v = [] \<and>
     Parse (Suc 0) (NewReader [''$0'' @ CRLF @ CRLF]) = Some (Ok v, b0') \<and> remaining b0' = []"
proof -
  have a0: "Atoi ''0'' = Inr 0" by (simp add: Atoi_def isDigit_def digitVal_def)
  have 1: "remaining (NewReader [''$-1'' @ CRLF @ ''+OK'' @ CRLF]) =
             BulkString # ''-1'' @ CRLF @ (''+OK'' @ CRLF)"
    by (simp add: remaining_NewReader BulkString_def)
  have 2: "remaining (NewReader [''$0'' @ CRLF @ CRLF]) = BulkString # ''0'' @ CRLF @ CRLF @ []"
    by (simp add: remaining_NewReader BulkString_def)
  show ?thesis
    using C7_null_bulk_string [OF wf_NewReader 1 Atoi_minus_1 wf_NewReader 2 a0, of 0]
    by (simp del: Parse.simps)
qed

subsection \<open>Single steps of the reader on a known buffer\<close>

lemma fill_chunk:
  assumes "buf b = []" "rd b = c # cs" "c \<noteq> []"
  shows "fill b = b\<lparr>buf := take defaultBufSize c,
                     rd := (if defaultBufSize < length c then drop defaultBufSize c # cs else cs)\<rparr>"
proof -
  have "(100::nat) = Suc 99" by simp
  then have "fill b = fill_loop (Suc 99) b" by (simp only: fill_def)
  also have "\<dots> =
     (case conn_Read (defaultBufSize - length (buf b)) (rd b) of
        (bs, e, cs) \<Rightarrow>
          (let b' = b\<lparr>buf := buf b @ bs, rd := cs\<rparr>
           in case e of
                Some x \<Rightarrow> b'\<lparr>err := Some x\<rparr>
              | None \<Rightarrow> if bs \<noteq> [] then b' else fill_loop 99 b'))"
    by (simp only: fill_loop.simps)
  also have "\<dots> = b\<lparr>buf := take defaultBufSize c,
                     rd := (if defaultBufSize < length c then drop defaultBufSize c # cs else cs)\<rparr>"
    using assms by (simp add: defaultBufSize_def)
  finally show ?thesis .
qed

lemma fill_closed:
  assumes "length (buf b) < defaultBufSize" "rd b = []"
  shows "fill b = b\<lparr>err := Some EOF\<rparr>"
  using fill_cases [OF assms(1)] assms(2) by auto

lemma ReadByte_buffered: "buf b = c # cs \<Longrightarrow> ReadByte b = (Ok c, b\<lparr>buf := cs\<rparr>)"
  by (simp add: ReadByte.simps [of b])

lemma ReadByte_fill: "buf b = [] \<Longrightarrow> err b = None \<Longrightarrow> ReadByte b = ReadByte (fill b)"
  by (simp add: ReadByte.simps [of b])

lemma ReadByte_closed:
  assumes "buf b = []" "err b = None" "rd b = []"
  shows "ReadByte b = (Err EOF, b)"
proof -
  have "fill b = b\<lparr>err := Some EOF\<rparr>"
    using fill_closed [of b] assms by (simp add: defaultBufSize_def)
  then have "ReadByte (fill b) = (Err EOF, b\<lparr>err := None\<rparr>)"
    using assms(1) by (simp add: ReadByte.simps [of "b\<lparr>err := Some EOF\<rparr>"])
  moreover have "b\<lparr>err := None\<rparr> = b" using assms(2) by simp
  ultimately show ?thesis using ReadByte_fill [OF assms(1,2)] by simp
qed

lemma ReadString_buffered:
  assumes "buf b = pre @ d # rest" "d \<notin> set pre"
  shows "ReadString d b = ((pre @ [d], None), b\<lparr>buf := rest\<rparr>)"
proof -
  have "ReadSlice d b = ((pre @ [d], None), b\<lparr>buf := rest\<rparr>)"
    using assms by (simp add: ReadSlice.simps [of d b] takeWhile_first Let_def)
  then show ?thesis by (simp add: ReadString_def collectFragments.simps [of d "[]" b])
qed

lemma readLine_buffered:
  assumes "buf b = line @ CRLF @ rest" "LF \<notin> set line"
  shows "readLine b = (Ok line, b\<lparr>buf := rest\<rparr>)"
proof -
  have 1: "buf b = (line @ [CR]) @ LF # rest" using assms(1) by (simp add: CRLF_def)
  have 2: "LF \<notin> set (line @ [CR])" using assms(2) by simp
  have "TrimSuffix ((line @ [CR]) @ [LF]) CRLF = line"
    using TrimSuffix_CRLF [of line] by (simp add: CRLF_def)
  then show ?thesis using ReadString_buffered [OF 1 2] by (simp add: readLine_def)
qed

lemma Read_buffered:
  "0 < n \<Longrightarrow> buf b \<noteq> [] \<Longrightarrow> Read n b = ((take n (buf b), None), b\<lparr>buf := drop n (buf b)\<rparr>)"
  by (simp add: Read_def)


subsection \<open>A connection closed in the middle of a bulk string\<close>

lemma parseBulkString_truncated:
  assumes "Atoi line = Inr n" "payload \<noteq> []" "length payload \<le> nat n"
  shows "parseBulkString \<lparr>buf = line @ CRLF @ payload, err = None, rd = []\<rparr> =
           (Ok (RESPValue BulkString [] 0 (payload @ replicate (nat n - length payload) (CHR 0x00)) []),
            \<lparr>buf = [], err = None, rd = []\<rparr>)"
proof -
  let ?b1 = "\<lparr>buf = line @ CRLF @ payload, err = None, rd = [] :: string list\<rparr>"
  let ?b2 = "\<lparr>buf = payload, err = None, rd = [] :: string list\<rparr>"
  let ?b3 = "\<lparr>buf = [], err = None, rd = [] :: string list\<rparr>"
  have l: "readLine ?b1 = (Ok line, ?b2)"
    using readLine_buffered [of ?b1 line payload] Atoi_no_LF [OF assms(1)] by simp
  have n: "0 < nat n" "n \<noteq> - 1" "\<not> n < 0" using assms(2,3) by (cases payload; simp)+
  have r: "Read (nat n) ?b2 = ((payload, None), ?b3)"
    using n(1) assms(2,3) by (simp add: Read_def)
  have e: "ReadByte ?b3 = (Err EOF, ?b3)" by (rule ReadByte_closed) simp_all
  show ?thesis using l assms(1) n r e by (simp add: parseBulkString_def)
qed

lemma Parse_truncated_bulk:
  assumes "Atoi line = Inr n" "payload \<noteq> []" "length payload \<le> nat n"
    and "length (BulkString # line @ CRLF @ payload) \<le> defaultBufSize"
  shows "Parse (Suc fuel) (NewReader [BulkString # line @ CRLF @ payload]) =
           Some (Ok (RESPValue BulkString [] 0 (payload @ replicate (nat n - length payload) (CHR 0x00)) []),
                 \<lparr>buf = [], err = None, rd = []\<rparr>)"
proof -
  let ?c = "BulkString # line @ CRLF @ payload"
  have "fill (NewReader [?c]) = \<lparr>buf = ?c, err = None, rd = []\<rparr>"
    using fill_chunk [of "NewReader [?c]" ?c "[]"] assms(4) by (simp add: NewReader_def)
  then have "ReadByte (NewReader [?c]) =
      (Ok BulkString, \<lparr>buf = line @ CRLF @ payload, err = None, rd = []\<rparr>)"
    using ReadByte_fill [of "NewReader [?c]"]
      ReadByte_buffered [of "\<lparr>buf = ?c, err = None, rd = []\<rparr>" BulkString "line @ CRLF @ payload"]
    by (simp add: NewReader_def)
  then show ?thesis using parseBulkString_truncated [OF assms(1-3)] by simp
qed

text \<open>
  Claim C9 says that the decoder fails on every stream that closes in the middle of a
  frame, a bulk string whose payload or terminator is cut short included. It does not:
  the connection that delivers \<open>$5\r\nab\<close> and closes yields the bulk string \<open>ab\<close> followed
  by three zero bytes, and the one that delivers \<open>$2\r\nab\<close> and closes yields \<open>ab\<close>, both
  with a nil error. \<open>parseBulkString\<close> drops the count that \<open>Read\<close> returns and the errors
  of the two \<open>ReadByte\<close> calls.
\<close>

theorem C9_truncated_bulk_accepted:
  "Parse (Suc 0) (NewReader [''$5'' @ CRLF @ ''ab'']) =
     Some (Ok (RESPValue BulkString [] 0 (''ab'' @ replicate 3 (CHR 0x00)) []),
           \<lparr>buf = [], err = None, rd = []\<rparr>) \<and>
   Parse (Suc 0) (NewReader [''$2'' @ CRLF @ ''ab'']) =
     Some (Ok (RESPValue BulkString [] 0 ''ab'' []), \<lparr>buf = [], err = None, rd = []\<rparr>)"
proof -
  have 5: "Atoi ''5'' = Inr 5" and 2: "Atoi ''2'' = Inr 2"
    by (simp_all add: Atoi_def isDigit_def digitVal_def)
  have "Parse (Suc 0) (NewReader [BulkString # ''5'' @ CRLF @ ''ab'']) =
     Some (Ok (RESPValue BulkString [] 0 (''ab'' @ replicate (nat 5 - length ''ab'') (CHR 0x00)) []),
           \<lparr>buf = [], err = None, rd = []\<rparr>)"
    by (rule Parse_truncated_bulk [OF 5]) (simp_all add: CRLF_def defaultBufSize_def)
  moreover have "Parse (Suc 0) (NewReader [BulkString # ''2'' @ CRLF @ ''ab'']) =
     Some (Ok (RESPValue BulkString [] 0 (''ab'' @ replicate (nat 2 - length ''ab'') (CHR 0x00)) []),
           \<lparr>buf = [], err = None, rd = []\<rparr>)"
    by (rule Parse_truncated_bulk [OF 2]) (simp_all add: CRLF_def defaultBufSize_def)
  ultimately show ?thesis by (simp add: BulkString_def del: Parse.simps)
qed

subsection \<open>A bulk string longer than the buffer\<close>

lemma Itoa_4090: "Itoa 4090 = ''4090''"
  by (simp add: Itoa_def natDigits.simps digitChar_def)

lemma Atoi_4090: "Atoi ''4090'' = Inr 4090"
  by (simp add: Atoi_def isDigit_def digitVal_def)

text \<open>
  Claim C2 says that every bulk string written by the writer is read back by the parser.
  It fails on a bulk string of 4090 bytes, delivered in one piece: the 4096 bytes of the
  reader's buffer hold the 7 bytes of \<open>$4090\r\n\<close> and 4089 bytes of payload, \<open>Read\<close>
  returns these 4089 bytes, and \<open>parseBulkString\<close>, which drops the count, returns them
  with a zero byte in the place of the last one, then takes the last payload byte and the
  \<open>\r\<close> for the terminator and leaves the \<open>\n\<close> in the stream.
\<close>

theorem C2_long_bulk_string_not_round_trip:
  "Parse (Suc 0) (NewReader [WriteBulkString (replicate 4090 (CHR ''a'')) []]) =
     Some (Ok (RESPValue BulkString [] 0 (replicate 4089 (CHR ''a'') @ [CHR 0x00]) []),
           \<lparr>buf = [LF], err = None, rd = []\<rparr>)"
proof -
  let ?a = "CHR ''a''"
  let ?frame = "BulkString # ''4090'' @ CRLF @ replicate 4090 ?a @ CRLF"
  let ?b1 = "\<lparr>buf = ''4090'' @ CRLF @ replicate 4089 ?a, err = None, rd = [?a # CRLF]\<rparr>"
  let ?b2 = "\<lparr>buf = replicate 4089 ?a, err = None, rd = [?a # CRLF]\<rparr>"
  let ?b3 = "\<lparr>buf = [], err = None, rd = [?a # CRLF]\<rparr>"
  let ?b5 = "\<lparr>buf = [LF], err = None, rd = [] :: string list\<rparr>"
  have f: "WriteBulkString (replicate 4090 ?a) [] = ?frame"
    by (simp add: WriteBulkString_def Itoa_4090 BulkString_def)
  have "replicate (4089 + 1) ?a = replicate 4089 ?a @ replicate 1 ?a"
    by (rule replicate_add)
  then have "replicate 4090 ?a = replicate 4089 ?a @ [?a]" by simp
  then have t: "take defaultBufSize ?frame = BulkString # ''4090'' @ CRLF @ replicate 4089 ?a"
    and d: "drop defaultBufSize ?frame = ?a # CRLF"
    by (simp_all add: defaultBufSize_def CRLF_def)
  have "fill (NewReader [?frame]) =
      \<lparr>buf = BulkString # ''4090'' @ CRLF @ replicate 4089 ?a, err = None, rd = [?a # CRLF]\<rparr>"
    by (subst fill_chunk [of _ ?frame "[]"])
       (simp_all add: NewReader_def t d, simp add: defaultBufSize_def CRLF_def)
  then have b: "ReadByte (NewReader [?frame]) = (Ok BulkString, ?b1)"
    using ReadByte_fill [of "NewReader [?frame]"]
      ReadByte_buffered [of "\<lparr>buf = BulkString # ''4090'' @ CRLF @ replicate 4089 ?a, err = None,
          rd = [?a # CRLF]\<rparr>" BulkString "''4090'' @ CRLF @ replicate 4089 ?a"]
    by (simp add: NewReader_def)
  have l: "readLine ?b1 = (Ok ''4090'', ?b2)"
    using readLine_buffered [of ?b1 "''4090''" "replicate 4089 ?a"] by (simp add: LF_def)
  have r: "Read (nat 4090) ?b2 = ((replicate 4089 ?a, None), ?b3)"
    by (simp add: Read_def)
  have "fill ?b3 = \<lparr>buf = ?a # CRLF, err = None, rd = []\<rparr>"
    by (subst fill_chunk [of _ "?a # CRLF" "[]"]) (simp_all add: defaultBufSize_def CRLF_def)
  then have b4: "ReadByte ?b3 = (Ok ?a, \<lparr>buf = CRLF, err = None, rd = []\<rparr>)"
    using ReadByte_fill [of ?b3]
      ReadByte_buffered [of "\<lparr>buf = ?a # CRLF, err = None, rd = []\<rparr>" ?a CRLF]
    by simp
  have b5: "ReadByte \<lparr>buf = CRLF, err = None, rd = []\<rparr> = (Ok CR, ?b5)"
    using ReadByte_buffered [of "\<lparr>buf = CRLF, err = None, rd = []\<rparr>" CR "[LF]"]
    by (simp add: CRLF_def)
  have "parseBulkString ?b1 =
      (Ok (RESPValue BulkString [] 0 (replicate 4089 ?a @ [CHR 0x00]) []), ?b5)"
    using l Atoi_4090 r b4 b5 by (simp add: parseBulkString_def)
  then show ?thesis using b by (simp add: f)
qed


subsection \<open>What does round-trip\<close>

lemma digitChar_digit:
  assumes "d < 10"
  shows "isDigit (digitChar d)" "digitVal (digitChar d) = d"
proof -
  from assms have "d = 0 \<or> d = 1 \<or> d = 2 \<or> d = 3 \<or> d = 4 \<or> d = 5 \<or> d = 6 \<or> d = 7 \<or> d = 8 \<or> d = 9"
    by arith
  then show "isDigit (digitChar d)" "digitVal (digitChar d) = d"
    by (auto simp: digitChar_def isDigit_def digitVal_def)
qed

lemma digitsVal_snoc:
  "digitsVal n (s @ [c]) =
     (case digitsVal n s of
        None \<Rightarrow> None
      | Some m \<Rightarrow> if isDigit c then Some (m * 10 + digitVal c) else None)"
  by (induction s arbitrary: n) auto

lemma natDigits_val: "digitsVal 0 (natDigits n) = Some n"
proof (induction n rule: natDigits.induct)
  case (1 n)
  show ?case
  proof (cases "n < 10")
    case True
    then show ?thesis using digitChar_digit [OF True] by (simp add: natDigits.simps [of n])
  next
    case False
    have m: "n mod 10 < 10" by simp
    from False have "natDigits n = natDigits (n div 10) @ [digitChar (n mod 10)]"
      by (simp add: natDigits.simps [of n])
    then show ?thesis using "1.IH" [OF False] digitChar_digit [OF m] by (simp add: digitsVal_snoc)
  qed
qed

lemma natDigits_not_empty: "natDigits n \<noteq> []"
  by (simp add: natDigits.simps [of n])

lemma natDigits_digits: "c \<in> set (natDigits n) \<Longrightarrow> isDigit c"
  using natDigits_val [of n] by (rule digitsVal_digits)

lemma isDigit_not_sign [simp]: "\<not> isDigit (CHR ''-'')" "\<not> isDigit (CHR ''+'')"
  by (simp_all add: isDigit_def)

lemma Atoi_Itoa:
  assumes "- (2 ^ 63) \<le> n" "n < 2 ^ 63"
  shows "Atoi (Itoa n) = Inr n"
proof (cases "n < 0")
  case True
  obtain c cs where s: "natDigits (nat (- n)) = c # cs"
    using natDigits_not_empty [of "nat (- n)"] by (cases "natDigits (nat (- n))") auto
  have "digitsVal 0 (c # cs) = Some (nat (- n))" using natDigits_val [of "nat (- n)"] s by simp
  then show ?thesis using True assms s by (simp add: Atoi_def Itoa_def del: digitsVal.simps)
next
  case False
  obtain c cs where s: "natDigits (nat n) = c # cs"
    using natDigits_not_empty [of "nat n"] by (cases "natDigits (nat n)") auto
  have "isDigit c" using natDigits_digits [of c "nat n"] s by simp
  then have c: "c \<noteq> CHR ''-''" "c \<noteq> CHR ''+''" by auto
  have "digitsVal 0 (c # cs) = Some (nat n)" using natDigits_val [of "nat n"] s by simp
  then show ?thesis using False assms s c by (simp add: Atoi_def Itoa_def del: digitsVal.simps)
qed

lemma Itoa_no_LF: "LF \<notin> set (Itoa n)"
proof
  assume "LF \<in> set (Itoa n)"
  then have "LF \<in> set (natDigits (nat (- n))) \<or> LF \<in> set (natDigits (nat n))"
    by (auto simp: Itoa_def LF_def split: if_splits)
  then show False using natDigits_digits [of LF] by auto
qed

text \<open>
  A simple string, an error and an integer written by the writer are read back by the
  parser, whatever the pieces the connection delivers the frame in; a simple string or
  an error must not contain \<open>\n\<close>.
\<close>

lemma roundtrip_SimpleString:
  assumes "wf_Reader b" "remaining b = WriteSimpleString s [] @ rest" "LF \<notin> set s"
  shows "\<exists>b'. Parse (Suc fuel) b = Some (Ok (RESPValue SimpleString s 0 [] []), b') \<and>
           remaining b' = rest \<and> wf_Reader b'"
proof -
  have "remaining b = SimpleString # s @ CRLF @ rest"
    using assms(2) by (simp add: WriteSimpleString_def SimpleString_def)
  from Parse_SimpleString [OF assms(1) this] obtain b1 where
    1: "Parse (Suc fuel) b = Some (parseSimpleString b1)" "remaining b1 = s @ CRLF @ rest"
       "wf_Reader b1" by blast
  from readLine_CRLF [OF 1(3,2) assms(3)] obtain b' where
    "readLine b1 = (Ok s, b')" "remaining b' = rest" "wf_Reader b'" by blast
  then show ?thesis using 1(1) by (simp add: parseSimpleString_def del: Parse.simps)
qed

lemma roundtrip_Error:
  assumes "wf_Reader b" "remaining b = WriteError msg [] @ rest" "LF \<notin> set msg"
  shows "\<exists>b'. Parse (Suc fuel) b = Some (Ok (RESPValue Error msg 0 [] []), b') \<and>
           remaining b' = rest \<and> wf_Reader b'"
proof -
  have "remaining b = Error # msg @ CRLF @ rest"
    using assms(2) by (simp add: WriteError_def Error_def)
  from Parse_Error [OF assms(1) this] obtain b1 where
    1: "Parse (Suc fuel) b = Some (parseError b1)" "remaining b1 = msg @ CRLF @ rest"
       "wf_Reader b1" by blast
  from readLine_CRLF [OF 1(3,2) assms(3)] obtain b' where
    "readLine b1 = (Ok msg, b')" "remaining b' = rest" "wf_Reader b'" by blast
  then show ?thesis using 1(1) by (simp add: parseError_def del: Parse.simps)
qed

lemma roundtrip_Integer:
  assumes "wf_Reader b" "remaining b = WriteInteger n [] @ rest" "- (2 ^ 63) \<le> n" "n < 2 ^ 63"
  shows "\<exists>b'. Parse (Suc fuel) b = Some (Ok (RESPValue Integer [] n [] []), b') \<and>
           remaining b' = rest \<and> wf_Reader b'"
proof -
  have "remaining b = Integer # Itoa n @ CRLF @ rest"
    using assms(2) by (simp add: WriteInteger_def Integer_def)
  from Parse_Integer [OF assms(1) this] obtain b1 where
    1: "Parse (Suc fuel) b = Some (parseInteger b1)" "remaining b1 = Itoa n @ CRLF @ rest"
       "wf_Reader b1" by blast
  from readLine_CRLF [OF 1(3,2) Itoa_no_LF] obtain b' where
    "readLine b1 = (Ok (Itoa n), b')" "remaining b' = rest" "wf_Reader b'" by blast
  then show ?thesis using 1(1) Atoi_Itoa [OF assms(3,4)]
    by (simp add: parseInteger_def del: Parse.simps)
qed

text \<open>
  A bulk string is read back when its payload and terminator are in the reader's buffer
  by the time the length line has been read.
\<close>

lemma roundtrip_BulkString_buffered:
  assumes "buf b = WriteBulkString s [] @ rest" "length s < 2 ^ 63"
  shows "Parse (Suc fuel) b = Some (Ok (RESPValue BulkString [] 0 s []), b\<lparr>buf := rest\<rparr>)"
proof -
  let ?n = "int (length s)"
  have f: "buf b = BulkString # Itoa ?n @ CRLF @ s @ CRLF @ rest"
    using assms(1) by (simp add: WriteBulkString_def BulkString_def)
  let ?b1 = "b\<lparr>buf := Itoa ?n @ CRLF @ s @ CRLF @ rest\<rparr>"
  let ?b2 = "b\<lparr>buf := s @ CRLF @ rest\<rparr>"
  let ?b3 = "b\<lparr>buf := CRLF @ rest\<rparr>"
  have t: "ReadByte b = (Ok BulkString, ?b1)" using ReadByte_buffered [OF f] .
  have l: "readLine ?b1 = (Ok (Itoa ?n), ?b2)"
    using readLine_buffered [of ?b1 "Itoa ?n" "s @ CRLF @ rest"] Itoa_no_LF by simp
  have a: "Atoi (Itoa ?n) = Inr ?n" using assms(2) by (intro Atoi_Itoa) simp_all
  have r: "Read (length s) ?b2 = ((s, None), ?b3)"
    by (cases "s = []") (simp_all add: Read_def CRLF_def)
  have c1: "ReadByte ?b3 = (Ok CR, b\<lparr>buf := LF # rest\<rparr>)"
    using ReadByte_buffered [of ?b3 CR "LF # rest"] by (simp add: CRLF_def)
  have c2: "ReadByte (b\<lparr>buf := LF # rest\<rparr>) = (Ok LF, b\<lparr>buf := rest\<rparr>)"
    using ReadByte_buffered [of "b\<lparr>buf := LF # rest\<rparr>" LF rest] by simp
  have "parseBulkString ?b1 = (Ok (RESPValue BulkString [] 0 s []), b\<lparr>buf := rest\<rparr>)"
    using l a r c1 c2 by (simp add: parseBulkString_def)
  then show ?thesis using t by simp
qed

end
